theory Spec2Isabelle
  imports Complex_Main "HOL-Library.Word"
begin

section \<open>Data and environment\<close>

text \<open>
  The three clients (\<open>client_tahoe.py\<close>, \<open>client_saw.py\<close>, \<open>client_burst1.py\<close>) are
  single loops over a mode variable \<open>state\<close>. Each is embedded as a function from the
  local variables before one pass of the loop body to the local variables after it.

  Python's numbers are embedded by value: \<open>seqno\<close>, \<open>desired_ackno\<close> and the decoded
  \<open>ackno\<close> are natural numbers, and the clock readings, \<open>timeout\<close>, \<open>estimated_rtt\<close>,
  \<open>dev_rtt\<close>, \<open>cwnd\<close> and \<open>ssthresh\<close> are rationals, so the arithmetic of the source
  is read exactly (the rounding of a binary float is not part of the model).

  What a pass of the loop reads from outside is its \<open>env\<close>: the answer of
  \<open>datasource.wait_for_data\<close>, the reading of \<open>time.time()\<close> and the outcome of
  \<open>s.recvfrom(100)\<close>: \<open>Timeout\<close> when no datagram arrives, \<open>SocketErr\<close> when the socket
  reports an error, \<open>Datagram d\<close> when \<open>d\<close> arrives. What it does to the outside is
  appended to three logs kept in the state: the datagrams given to \<open>s.sendto\<close>, the rows
  given to \<open>trace.write\<close>, and the sequence numbers given to
  \<open>datasource.wait_for_data\<close> with the answers. The calls \<open>s.sendto\<close>, \<open>trace.write\<close>
  and \<open>print\<close> are taken to return normally.

  The locals \<open>hdr\<close> and \<open>burst\<close>, which are written and never read, and the constant
  destination \<open>(host, port)\<close> are left out; locals that live within one pass (\<open>pkt\<close>,
  \<open>tSend\<close>, \<open>tRecv\<close>, \<open>sample_rtt\<close> in \<open>client_tahoe.py\<close>) are bound by \<open>let\<close>.
\<close>

type_synonym byte = "8 word"
type_synonym bytes = "byte list"

datatype error = StructError | KeyError | TypeError | ZeroDivisionError | ValueError
  | SocketError | UnboundLocalError

datatype rx = Timeout | SocketErr | Datagram bytes

record env =
  src :: "bytes option"
  clock :: rat
  chan :: rx

subsection \<open>\<open>struct.pack(">II", a, b)\<close> and \<open>struct.unpack(">II", data)\<close>\<close>

definition be32 :: "nat \<Rightarrow> bytes" where
  "be32 v = [of_nat (v div 16777216), of_nat (v div 65536), of_nat (v div 256), of_nat v]"

definition from_be :: "bytes \<Rightarrow> nat" where
  "from_be bs = foldl (\<lambda>acc b. acc * 256 + unat b) 0 bs"

definition pack_II :: "nat \<Rightarrow> nat \<Rightarrow> error + bytes" where
  "pack_II a b =
     (if a < 4294967296 \<and> b < 4294967296 then Inr (be32 a @ be32 b) else Inl StructError)"

definition unpack_II :: "bytes \<Rightarrow> error + nat \<times> nat" where
  "unpack_II data =
     (if length data = 8 then Inr (from_be (take 4 data), from_be (drop 4 data))
      else Inl StructError)"

definition magic :: nat where
  "magic = 3131951870"

subsection \<open>The insertion-ordered dictionary \<open>outstanding\<close>\<close>

fun dict_set :: "nat \<Rightarrow> 'v \<Rightarrow> (nat \<times> 'v) list \<Rightarrow> (nat \<times> 'v) list" where
  "dict_set k v [] = [(k, v)]"
| "dict_set k v (p # ps) = (if fst p = k then (k, v) # ps else p # dict_set k v ps)"

definition dict_del :: "nat \<Rightarrow> (nat \<times> 'v) list \<Rightarrow> (nat \<times> 'v) list" where
  "dict_del k ps = filter (\<lambda>p. fst p \<noteq> k) ps"

definition dict_keys :: "(nat \<times> 'v) list \<Rightarrow> nat list" where
  "dict_keys ps = map fst ps"

text \<open>\<open>next(iter(d), default)\<close>: the first key in insertion order, or the default.\<close>

definition first_key :: "(nat \<times> 'v) list \<Rightarrow> nat \<Rightarrow> nat" where
  "first_key ps d = (case ps of [] \<Rightarrow> d | p # _ \<Rightarrow> fst p)"

section \<open>\<open>client_tahoe.py\<close>\<close>

definition estimated_rtt_calc :: "rat \<Rightarrow> rat \<Rightarrow> rat" where
  "estimated_rtt_calc sample_rtt est = (let a = 1 / 8 in a * sample_rtt + (1 - a) * est)"

definition dev_rtt_calc :: "rat \<Rightarrow> rat \<Rightarrow> rat \<Rightarrow> rat" where
  "dev_rtt_calc sample_rtt est dev =
     (let b = 1 / 4 in b * \<bar>sample_rtt - est\<bar> + (1 - b) * dev)"

record st =
  start :: rat
  timeout :: rat
  estimated_rtt :: rat
  dev_rtt :: rat
  send_times :: "nat \<rightharpoonup> rat"
  cwnd :: rat
  ssthresh :: rat
  seqno :: nat
  desired_ackno :: nat
  body :: "bytes option"
  have_more_data :: bool
  outstanding :: "(nat \<times> bytes) list"
  state :: nat
  sent :: "bytes list"
  traced :: "(nat \<times> rat \<times> nat \<times> rat) list"
  asked :: "(nat \<times> bytes option) list"

text \<open>The locals of \<open>main(host, port, n, t)\<close> at the first test of the loop condition;
  \<open>t0\<close> is the reading of \<open>start = time.time()\<close>.\<close>

definition init :: "int \<Rightarrow> rat \<Rightarrow> rat \<Rightarrow> st" where
  "init n t t0 =
     \<lparr> start = t0, timeout = t, estimated_rtt = t, dev_rtt = 0, send_times = Map.empty,
       cwnd = 1, ssthresh = of_int n, seqno = 0, desired_ackno = 0, body = None,
       have_more_data = True, outstanding = [], state = 0,
       sent = [], traced = [], asked = [] \<rparr>"

definition loop_guard :: "st \<Rightarrow> bool" where
  "loop_guard s = (have_more_data s \<or> length (outstanding s) > 0)"

text \<open>State 0: wait for data to be available to send.\<close>

definition state0 :: "env \<Rightarrow> st \<Rightarrow> error + st" where
  "state0 e s =
     (let s1 = s\<lparr> body := src e, asked := asked s @ [(seqno s, src e)] \<rparr>
      in if src e = None then Inr (s1\<lparr> have_more_data := False, state := 2 \<rparr>)
         else Inr (s1\<lparr> state := 1 \<rparr>))"

text \<open>State 1: send one data packet.\<close>

definition state1 :: "env \<Rightarrow> st \<Rightarrow> error + st" where
  "state1 e s =
     (case pack_II magic (seqno s) of
        Inl x \<Rightarrow> Inl x
      | Inr hdr \<Rightarrow>
          (case body s of
             None \<Rightarrow> Inl TypeError
           | Some b \<Rightarrow>
               (let pkt = hdr @ b;
                    tSend = clock e;
                    s1 = s\<lparr> send_times := (send_times s)(seqno s \<mapsto> tSend),
                            sent := sent s @ [pkt],
                            traced := traced s @ [(seqno s, tSend - start s, 0, 0)],
                            outstanding := dict_set (seqno s) pkt (outstanding s),
                            seqno := seqno s + 1 \<rparr>
                in if of_nat (length (outstanding s1)) \<ge> cwnd s1 then Inr (s1\<lparr> state := 2 \<rparr>)
                   else Inr (s1\<lparr> state := 0 \<rparr>))))"

text \<open>State 2, the body of the \<open>try\<close> once \<open>recvfrom\<close> has returned \<open>ack\<close>; \<open>tRecv\<close> is the
  clock reading. \<open>KeyError\<close> and \<open>struct.error\<close> are not among the exceptions the
  \<open>except\<close> clause names, so they leave \<open>main\<close>.\<close>

definition on_ack :: "nat \<Rightarrow> rat \<Rightarrow> st \<Rightarrow> error + st" where
  "on_ack ackno tRecv s =
     (case send_times s ackno of
        None \<Rightarrow> Inl KeyError
      | Some ts \<Rightarrow>
          (let sample_rtt = tRecv - ts;
               est = estimated_rtt_calc sample_rtt (estimated_rtt s);
               dev = dev_rtt_calc sample_rtt est (dev_rtt s);
               s1 = s\<lparr> estimated_rtt := est, dev_rtt := dev, timeout := est + 4 * dev,
                       traced := traced s @ [(0, 0, ackno, tRecv - start s)] \<rparr>;
               s2 = (if ackno \<in> set (dict_keys (outstanding s1))
                     then s1\<lparr> outstanding := dict_del ackno (outstanding s1) \<rparr> else s1)
           in if ackno = desired_ackno s2 then
                (let s3 = s2\<lparr> desired_ackno := first_key (outstanding s2) (seqno s2) \<rparr>
                 in if cwnd s3 < ssthresh s3 then Inr (s3\<lparr> cwnd := cwnd s3 + 1, state := 0 \<rparr>)
                    else if cwnd s3 = 0 then Inl ZeroDivisionError
                    else Inr (s3\<lparr> cwnd := cwnd s3 + 1 / cwnd s3, state := 0 \<rparr>))
              else if of_nat (length (outstanding s2)) \<ge> cwnd s2 then Inr (s2\<lparr> state := 2 \<rparr>)
              else Inr (s2\<lparr> state := 0 \<rparr>)))"

definition try_body :: "bytes \<Rightarrow> rat \<Rightarrow> st \<Rightarrow> error + st" where
  "try_body ack tRecv s =
     (case unpack_II ack of
        Inl x \<Rightarrow> Inl x
      | Inr (_, ackno) \<Rightarrow> on_ack ackno tRecv s)"

text \<open>State 2, the \<open>except (socket.timeout, socket.error)\<close> clause.\<close>

definition on_timeout :: "st \<Rightarrow> st" where
  "on_timeout s =
     s\<lparr> ssthresh := of_int \<lfloor>cwnd s / 2\<rfloor>, cwnd := 1, timeout := timeout s * 2, state := 3 \<rparr>"

text \<open>State 2: wait for the desired ACK. \<open>s.settimeout\<close> refuses a negative value with
  \<open>ValueError\<close>, outside the \<open>try\<close>; \<open>recvfrom(100)\<close> returns at most 100 bytes of the
  datagram.\<close>

definition state2 :: "env \<Rightarrow> st \<Rightarrow> error + st" where
  "state2 e s =
     (if timeout s < 0 then Inl ValueError
      else case chan e of
             Timeout \<Rightarrow> Inr (on_timeout s)
           | SocketErr \<Rightarrow> Inr (on_timeout s)
           | Datagram d \<Rightarrow> try_body (take 100 d) (clock e) s)"

text \<open>State 3: resend the packet with \<open>desired_ackno\<close>.\<close>

definition state3 :: "env \<Rightarrow> st \<Rightarrow> error + st" where
  "state3 e s =
     (case map_of (outstanding s) (desired_ackno s) of
        None \<Rightarrow> Inl KeyError
      | Some pkt \<Rightarrow>
          (let tSend = clock e
           in Inr (s\<lparr> send_times := (send_times s)(desired_ackno s \<mapsto> tSend),
                      sent := sent s @ [pkt],
                      traced := traced s @ [(seqno s, tSend - start s, 0, 0)],
                      state := 2 \<rparr>)))"

datatype 'a flow = Raise error | Break 'a | Continue 'a

definition lift :: "error + 'a \<Rightarrow> 'a flow" where
  "lift r = (case r of Inl x \<Rightarrow> Raise x | Inr s \<Rightarrow> Continue s)"

definition loop_body :: "env \<Rightarrow> st \<Rightarrow> st flow" where
  "loop_body e s =
     (if state s = 0 then lift (state0 e s)
      else if state s = 1 then lift (state1 e s)
      else if state s = 2 then lift (state2 e s)
      else if state s = 3 then lift (state3 e s)
      else Break s)"

text \<open>The \<open>while\<close> loop, one \<open>env\<close> per pass. \<open>Pending s\<close>: the inputs are used up and the
  loop stands at its condition, which holds, with locals \<open>s\<close>.\<close>

datatype 'a result = Failed error | Finished 'a | Pending 'a

fun main_loop :: "env list \<Rightarrow> st \<Rightarrow> st result" where
  "main_loop [] s = (if loop_guard s then Pending s else Finished s)"
| "main_loop (e # es) s =
     (if loop_guard s then
        (case loop_body e s of
           Raise x \<Rightarrow> Failed x
         | Break s' \<Rightarrow> Finished s'
         | Continue s' \<Rightarrow> main_loop es s')
      else Finished s)"

definition main :: "int \<Rightarrow> rat \<Rightarrow> rat \<Rightarrow> env list \<Rightarrow> st result" where
  "main n t t0 es = main_loop es (init n t t0)"

section \<open>\<open>client_saw.py\<close>\<close>

record saw =
  start_saw :: rat
  seqno_saw :: nat
  body_saw :: "bytes option"
  have_more_data_saw :: bool
  state_saw :: nat
  tSend_saw :: "rat option"
  sent_saw :: "bytes list"
  traced_saw :: "(nat \<times> rat \<times> nat \<times> rat) list"
  asked_saw :: "(nat \<times> bytes option) list"

definition init_saw :: "rat \<Rightarrow> saw" where
  "init_saw t0 =
     \<lparr> start_saw = t0, seqno_saw = 0, body_saw = None, have_more_data_saw = True,
       state_saw = 0, tSend_saw = None, sent_saw = [], traced_saw = [], asked_saw = [] \<rparr>"

definition state0_saw :: "env \<Rightarrow> saw \<Rightarrow> error + saw" where
  "state0_saw e s =
     (let s1 = s\<lparr> body_saw := src e, asked_saw := asked_saw s @ [(seqno_saw s, src e)] \<rparr>
      in if src e = None then Inr (s1\<lparr> have_more_data_saw := False \<rparr>)
         else Inr (s1\<lparr> state_saw := 1 \<rparr>))"

definition state1_saw :: "env \<Rightarrow> saw \<Rightarrow> error + saw" where
  "state1_saw e s =
     (case pack_II magic (seqno_saw s) of
        Inl x \<Rightarrow> Inl x
      | Inr hdr \<Rightarrow>
          (case body_saw s of
             None \<Rightarrow> Inl TypeError
           | Some b \<Rightarrow>
               Inr (s\<lparr> tSend_saw := Some (clock e), sent_saw := sent_saw s @ [hdr @ b],
                       state_saw := 2 \<rparr>)))"

text \<open>State 2: the socket has no timeout, so \<open>recvfrom\<close> returns only with a datagram or
  an error; a pass in which nothing arrives leaves the client where it is, still
  waiting.\<close>

definition state2_saw :: "env \<Rightarrow> saw \<Rightarrow> error + saw" where
  "state2_saw e s =
     (case chan e of
        Timeout \<Rightarrow> Inr s
      | SocketErr \<Rightarrow> Inl SocketError
      | Datagram d \<Rightarrow>
          (let tRecv = clock e
           in case unpack_II (take 100 d) of
                Inl x \<Rightarrow> Inl x
              | Inr (magack, ackno) \<Rightarrow>
                  (case tSend_saw s of
                     None \<Rightarrow> Inl UnboundLocalError
                   | Some tSend \<Rightarrow>
                       Inr (s\<lparr> traced_saw := traced_saw s @
                                  [(seqno_saw s, tSend - start_saw s, ackno, tRecv - start_saw s)],
                               seqno_saw := seqno_saw s + 1,
                               state_saw := 0 \<rparr>))))"

definition loop_body_saw :: "env \<Rightarrow> saw \<Rightarrow> saw flow" where
  "loop_body_saw e s =
     (if state_saw s = 0 then lift (state0_saw e s)
      else if state_saw s = 1 then lift (state1_saw e s)
      else if state_saw s = 2 then lift (state2_saw e s)
      else Break s)"

fun main_loop_saw :: "env list \<Rightarrow> saw \<Rightarrow> saw result" where
  "main_loop_saw [] s = (if have_more_data_saw s then Pending s else Finished s)"
| "main_loop_saw (e # es) s =
     (if have_more_data_saw s then
        (case loop_body_saw e s of
           Raise x \<Rightarrow> Failed x
         | Break s' \<Rightarrow> Finished s'
         | Continue s' \<Rightarrow> main_loop_saw es s')
      else Finished s)"

definition main_saw :: "rat \<Rightarrow> env list \<Rightarrow> saw result" where
  "main_saw t0 es = main_loop_saw es (init_saw t0)"

section \<open>\<open>client_burst1.py\<close>\<close>

record burst =
  start_burst :: rat
  seqno_burst :: nat
  body_burst :: "bytes option"
  have_more_data_burst :: bool
  state_burst :: nat
  sent_burst :: "bytes list"
  traced_burst :: "(nat \<times> rat \<times> nat \<times> rat) list"
  asked_burst :: "(nat \<times> bytes option) list"

definition init_burst :: "rat \<Rightarrow> burst" where
  "init_burst t0 =
     \<lparr> start_burst = t0, seqno_burst = 0, body_burst = None, have_more_data_burst = True,
       state_burst = 0, sent_burst = [], traced_burst = [], asked_burst = [] \<rparr>"

text \<open>State 0; \<open>seqno % n\<close> raises \<open>ZeroDivisionError\<close> for \<open>n = 0\<close>.\<close>

definition state0_burst :: "int \<Rightarrow> env \<Rightarrow> burst \<Rightarrow> error + burst" where
  "state0_burst n e s =
     (let s1 = s\<lparr> body_burst := src e, asked_burst := asked_burst s @ [(seqno_burst s, src e)] \<rparr>
      in if src e = None then Inr (s1\<lparr> have_more_data_burst := False \<rparr>)
         else if n = 0 then Inl ZeroDivisionError
         else if int (seqno_burst s) mod n = 0 then Inr (s1\<lparr> state_burst := 1 \<rparr>)
         else Inr (s1\<lparr> state_burst := 2 \<rparr>))"

text \<open>State 1: \<open>time.sleep(t)\<close>, which refuses a negative length with \<open>ValueError\<close>.\<close>

definition state1_burst :: "rat \<Rightarrow> env \<Rightarrow> burst \<Rightarrow> error + burst" where
  "state1_burst t e s = (if t < 0 then Inl ValueError else Inr (s\<lparr> state_burst := 2 \<rparr>))"

definition state2_burst :: "env \<Rightarrow> burst \<Rightarrow> error + burst" where
  "state2_burst e s =
     (case pack_II magic (seqno_burst s) of
        Inl x \<Rightarrow> Inl x
      | Inr hdr \<Rightarrow>
          (case body_burst s of
             None \<Rightarrow> Inl TypeError
           | Some b \<Rightarrow>
               (let tSend = clock e
                in Inr (s\<lparr> sent_burst := sent_burst s @ [hdr @ b],
                           traced_burst := traced_burst s @
                             [(seqno_burst s, tSend - start_burst s, 0, 0)],
                           seqno_burst := seqno_burst s + 1,
                           state_burst := 0 \<rparr>))))"

definition loop_body_burst :: "int \<Rightarrow> rat \<Rightarrow> env \<Rightarrow> burst \<Rightarrow> burst flow" where
  "loop_body_burst n t e s =
     (if state_burst s = 0 then lift (state0_burst n e s)
      else if state_burst s = 1 then lift (state1_burst t e s)
      else if state_burst s = 2 then lift (state2_burst e s)
      else Break s)"

fun main_loop_burst :: "int \<Rightarrow> rat \<Rightarrow> env list \<Rightarrow> burst \<Rightarrow> burst result" where
  "main_loop_burst n t [] s = (if have_more_data_burst s then Pending s else Finished s)"
| "main_loop_burst n t (e # es) s =
     (if have_more_data_burst s then
        (case loop_body_burst n t e s of
           Raise x \<Rightarrow> Failed x
         | Break s' \<Rightarrow> Finished s'
         | Continue s' \<Rightarrow> main_loop_burst n t es s')
      else Finished s)"

definition main_burst :: "int \<Rightarrow> rat \<Rightarrow> rat \<Rightarrow> env list \<Rightarrow> burst result" where
  "main_burst n t t0 es = main_loop_burst n t es (init_burst t0)"

section \<open>Invariants of the \<open>client_tahoe.py\<close> loop\<close>

text \<open>What holds of the locals each time the loop condition is tested: the window is at
  least one; \<open>send_times\<close> has exactly the sequence numbers below \<open>seqno\<close>; every key of
  \<open>outstanding\<close> is below \<open>seqno\<close>; \<open>desired_ackno\<close> is a key of \<open>outstanding\<close>, or \<open>seqno\<close>
  when the dictionary is empty; \<open>state\<close> is one of 0 to 3, with a body at hand in
  state 1 and something outstanding in states 2 and 3 while data remains.\<close>

definition inv :: "st \<Rightarrow> bool" where
  "inv s \<longleftrightarrow>
     1 \<le> cwnd s \<and>
     (\<forall>k \<in> set (dict_keys (outstanding s)). k < seqno s) \<and>
     (\<forall>k. send_times s k \<noteq> None \<longleftrightarrow> k < seqno s) \<and>
     (outstanding s = [] \<longrightarrow> desired_ackno s = seqno s) \<and>
     (outstanding s \<noteq> [] \<longrightarrow> desired_ackno s \<in> set (dict_keys (outstanding s))) \<and>
     state s \<le> 3 \<and>
     (state s = 1 \<longrightarrow> body s \<noteq> None) \<and>
     (have_more_data s \<longrightarrow> 2 \<le> state s \<longrightarrow> outstanding s \<noteq> [])"



text \<open>The slow-start threshold stays at or above the smaller of its initial value and 0.\<close>

definition ssthresh_inv :: "int \<Rightarrow> st \<Rightarrow> bool" where
  "ssthresh_inv n s \<longleftrightarrow> min 0 (of_int n) \<le> ssthresh s"

text \<open>Sequence number \<open>a\<close> has been sent, is no longer outstanding and is not the one
  waited for.\<close>

definition settled :: "nat \<Rightarrow> st \<Rightarrow> bool" where
  "settled a s \<longleftrightarrow>
     a < seqno s \<and> a \<notin> set (dict_keys (outstanding s)) \<and> a \<noteq> desired_ackno s"

section \<open>Scenarios\<close>

text \<open>Passes of the loop as the environment sees them: the data source hands over a
  chunk or reports the end of the data, the clock is read at a send, an ACK for \<open>a\<close>
  arrives, nothing arrives, a datagram \<open>d\<close> arrives.\<close>

definition chunk :: "bytes \<Rightarrow> env" where
  "chunk b = \<lparr> src = Some b, clock = 0, chan = Timeout \<rparr>"

definition no_data :: env where
  "no_data = \<lparr> src = None, clock = 0, chan = Timeout \<rparr>"

definition tick :: "rat \<Rightarrow> env" where
  "tick t = \<lparr> src = None, clock = t, chan = Timeout \<rparr>"

definition arrives :: "bytes \<Rightarrow> rat \<Rightarrow> env" where
  "arrives d t = \<lparr> src = None, clock = t, chan = Datagram d \<rparr>"

definition ack_for :: "nat \<Rightarrow> bytes" where
  "ack_for a = be32 magic @ be32 a"

text \<open>A run with ssthresh 2 and default timeout 1, started at clock reading 0: chunk 0
  is sent at 1 and acknowledged at 3, chunks 1 and 2 are sent at 4 and 5. \<open>demo\<close> is where
  the loop then stands: in state 2, with sequence numbers 1 and 2 outstanding.\<close>

definition demo_run :: "env list" where
  "demo_run = [chunk [1], tick 1, arrives (ack_for 0) 3, chunk [2], tick 4, chunk [3], tick 5]"

definition demo :: st where
  "demo =
     \<lparr> start = 0, timeout = 2, estimated_rtt = 9 / 8, dev_rtt = 7 / 32,
       send_times = [0 \<mapsto> 1, 1 \<mapsto> 4, 2 \<mapsto> 5],
       cwnd = 2, ssthresh = 2, seqno = 3, desired_ackno = 1, body = Some [3],
       have_more_data = True,
       outstanding = [(1, [186, 173, 202, 254, 0, 0, 0, 1, 2]),
                      (2, [186, 173, 202, 254, 0, 0, 0, 2, 3])],
       state = 2,
       sent = [[186, 173, 202, 254, 0, 0, 0, 0, 1], [186, 173, 202, 254, 0, 0, 0, 1, 2],
               [186, 173, 202, 254, 0, 0, 0, 2, 3]],
       traced = [(0, 1, 0, 0), (0, 0, 0, 3), (1, 4, 0, 0), (2, 5, 0, 0)],
       asked = [(0, Some [1]), (1, Some [2]), (2, Some [3])] \<rparr>"

text \<open>From \<open>demo\<close>, the ACK for sequence number 1 arrives at clock reading 6
  (\<open>demo_acked\<close>), and the data source then reports the end of the data
  (\<open>demo_waiting\<close>).\<close>

definition demo_acked :: st where
  "demo_acked =
     demo\<lparr> estimated_rtt := 79 / 64, dev_rtt := 91 / 256, timeout := 85 / 32,
            outstanding := [(2, [186, 173, 202, 254, 0, 0, 0, 2, 3])],
            desired_ackno := 2, cwnd := 5 / 2, state := 0,
            traced := traced demo @ [(0, 0, 1, 6)] \<rparr>"

definition demo_waiting :: st where
  "demo_waiting =
     demo_acked\<lparr> body := None, asked := asked demo_acked @ [(3, None)],
                  have_more_data := False, state := 2 \<rparr>"

text \<open>From \<open>demo_acked\<close>, the data source hands over a fourth chunk (\<open>demo_more\<close>), which is
  sent at clock reading 7 (\<open>demo_sent\<close>).\<close>

definition demo_more :: st where
  "demo_more =
     demo_acked\<lparr> body := Some [4], asked := asked demo_acked @ [(3, Some [4])], state := 1 \<rparr>"

definition demo_sent :: st where
  "demo_sent =
     demo_more\<lparr> send_times := [0 \<mapsto> 1, 1 \<mapsto> 4, 2 \<mapsto> 5, 3 \<mapsto> 7],
                sent := sent demo_more @ [[186, 173, 202, 254, 0, 0, 0, 3, 4]],
                traced := traced demo_more @ [(3, 7, 0, 0)],
                outstanding := [(2, [186, 173, 202, 254, 0, 0, 0, 2, 3]),
                                (3, [186, 173, 202, 254, 0, 0, 0, 3, 4])],
                seqno := 4, state := 0 \<rparr>"

definition silence :: env where
  "silence = \<lparr> src = None, clock = 0, chan = Timeout \<rparr>"


section \<open>Properties of the embedding\<close>

subsection \<open>The dictionary\<close>

lemma dict_keys_simps: "dict_keys [] = []" "dict_keys (p # ps) = fst p # dict_keys ps"
  by (simp_all add: dict_keys_def)

lemma keys_dict_set: "set (dict_keys (dict_set k v ps)) = insert k (set (dict_keys ps))"
  by (induction ps) (auto simp: dict_keys_def)

lemma dict_set_not_Nil: "dict_set k v ps \<noteq> []"
  by (cases ps) auto

lemma keys_dict_del: "set (dict_keys (dict_del k ps)) = set (dict_keys ps) - {k}"
  by (auto simp: dict_keys_def dict_del_def)

lemma dict_del_absent: "k \<notin> set (dict_keys ps) \<Longrightarrow> dict_del k ps = ps"
  by (induction ps) (auto simp: dict_keys_def dict_del_def)

lemma first_key_mem: "ps \<noteq> [] \<Longrightarrow> first_key ps d \<in> set (dict_keys ps)"
  by (cases ps) (auto simp: first_key_def dict_keys_def)

lemma first_key_Nil: "first_key [] d = d"
  by (simp add: first_key_def)

lemma map_of_keys: "map_of ps k = None \<longleftrightarrow> k \<notin> set (dict_keys ps)"
  by (simp add: dict_keys_def map_of_eq_None_iff)

subsection \<open>What one pass does to the locals\<close>

lemma state0_Inr:
  assumes "state0 e s = Inr s'"
  shows "s' = s\<lparr> body := src e, asked := asked s @ [(seqno s, src e)],
                  have_more_data := (have_more_data s \<and> src e \<noteq> None),
                  state := (if src e = None then 2 else 1) \<rparr>"
  using assms by (auto simp: state0_def Let_def split: if_splits)

lemma state1_Inr:
  assumes "state1 e s = Inr s'"
  obtains hdr b where "pack_II magic (seqno s) = Inr hdr" and "body s = Some b"
    and "s' = s\<lparr> send_times := (send_times s)(seqno s \<mapsto> clock e),
                  sent := sent s @ [hdr @ b],
                  traced := traced s @ [(seqno s, clock e - start s, 0, 0)],
                  outstanding := dict_set (seqno s) (hdr @ b) (outstanding s),
                  seqno := seqno s + 1,
                  state := (if cwnd s \<le> of_nat (length (dict_set (seqno s) (hdr @ b) (outstanding s)))
                            then 2 else 0) \<rparr>"
  using assms by (auto simp: state1_def Let_def split: if_splits sum.splits option.splits)

lemma on_ack_Inr:
  assumes "on_ack a tR s = Inr s'"
  obtains ts where "send_times s a = Some ts"
    and "estimated_rtt s' = estimated_rtt_calc (tR - ts) (estimated_rtt s)"
    and "dev_rtt s' = dev_rtt_calc (tR - ts) (estimated_rtt s') (dev_rtt s)"
    and "timeout s' = estimated_rtt s' + 4 * dev_rtt s'"
    and "outstanding s' = dict_del a (outstanding s)"
    and "desired_ackno s' =
           (if a = desired_ackno s then first_key (outstanding s') (seqno s) else desired_ackno s)"
    and "cwnd s' =
           (if a = desired_ackno s
            then (if cwnd s < ssthresh s then cwnd s + 1 else cwnd s + 1 / cwnd s)
            else cwnd s)"
    and "state s' =
           (if a = desired_ackno s then 0
            else if cwnd s \<le> of_nat (length (outstanding s')) then 2 else 0)"
    and "traced s' = traced s @ [(0, 0, a, tR - start s)]"
    and "ssthresh s' = ssthresh s" and "seqno s' = seqno s" and "send_times s' = send_times s"
    and "sent s' = sent s" and "asked s' = asked s" and "body s' = body s"
    and "have_more_data s' = have_more_data s" and "start s' = start s"
proof (cases "send_times s a")
  case None
  with assms show ?thesis by (simp add: on_ack_def)
next
  case (Some ts)
  show ?thesis
    using assms Some
    by (intro that [of ts]) (auto simp: on_ack_def Let_def dict_del_absent split: if_splits)
qed

lemma state2_Inr:
  assumes "state2 e s = Inr s'"
  shows "0 \<le> timeout s \<and>
         (case chan e of
            Timeout \<Rightarrow> s' = on_timeout s
          | SocketErr \<Rightarrow> s' = on_timeout s
          | Datagram d \<Rightarrow> \<exists>m a. unpack_II (take 100 d) = Inr (m, a) \<and> on_ack a (clock e) s = Inr s')"
  using assms
  by (auto simp: state2_def try_body_def split: if_splits rx.splits sum.splits prod.splits)

lemma state3_Inr:
  assumes "state3 e s = Inr s'"
  obtains pkt where "map_of (outstanding s) (desired_ackno s) = Some pkt"
    and "s' = s\<lparr> send_times := (send_times s)(desired_ackno s \<mapsto> clock e),
                  sent := sent s @ [pkt],
                  traced := traced s @ [(seqno s, clock e - start s, 0, 0)],
                  state := 2 \<rparr>"
  using assms by (auto simp: state3_def Let_def split: option.splits)

lemma lift_Continue: "lift r = Continue s' \<longleftrightarrow> r = Inr s'"
  by (cases r) (simp_all add: lift_def)

lemma lift_not_Break: "lift r \<noteq> Break s'"
  by (cases r) (simp_all add: lift_def)

subsection \<open>The invariant\<close>

lemma invI:
  assumes "1 \<le> cwnd s"
    and "\<And>k. k \<in> set (dict_keys (outstanding s)) \<Longrightarrow> k < seqno s"
    and "\<And>k. (send_times s k \<noteq> None) = (k < seqno s)"
    and "outstanding s = [] \<Longrightarrow> desired_ackno s = seqno s"
    and "outstanding s \<noteq> [] \<Longrightarrow> desired_ackno s \<in> set (dict_keys (outstanding s))"
    and "state s \<le> 3"
    and "state s = 1 \<Longrightarrow> body s \<noteq> None"
    and "have_more_data s \<Longrightarrow> 2 \<le> state s \<Longrightarrow> outstanding s \<noteq> []"
  shows "inv s"
  unfolding inv_def using assms by blast

lemma inv_cwnd: "inv s \<Longrightarrow> 1 \<le> cwnd s"
  and inv_keys: "inv s \<Longrightarrow> k \<in> set (dict_keys (outstanding s)) \<Longrightarrow> k < seqno s"
  and inv_times: "inv s \<Longrightarrow> (send_times s k \<noteq> None) = (k < seqno s)"
  and inv_desired_Nil: "inv s \<Longrightarrow> outstanding s = [] \<Longrightarrow> desired_ackno s = seqno s"
  and inv_desired_mem:
    "inv s \<Longrightarrow> outstanding s \<noteq> [] \<Longrightarrow> desired_ackno s \<in> set (dict_keys (outstanding s))"
  and inv_state: "inv s \<Longrightarrow> state s \<le> 3"
  and inv_body: "inv s \<Longrightarrow> state s = 1 \<Longrightarrow> body s \<noteq> None"
  and inv_out: "inv s \<Longrightarrow> have_more_data s \<Longrightarrow> 2 \<le> state s \<Longrightarrow> outstanding s \<noteq> []"
  unfolding inv_def by blast+

lemma inv_init: "inv (init n t t0)"
  by (rule invI) (simp_all add: init_def dict_keys_def)

lemma inv_state0:
  assumes "inv s" and "state0 e s = Inr s'"
  shows "inv s'"
proof -
  note s' = state0_Inr [OF assms(2)]
  show ?thesis
  proof (rule invI)
    show "1 \<le> cwnd s'" using inv_cwnd [OF assms(1)] by (simp add: s')
    show "k < seqno s'" if "k \<in> set (dict_keys (outstanding s'))" for k
      using that inv_keys [OF assms(1), of k] by (simp add: s')
    show "(send_times s' k \<noteq> None) = (k < seqno s')" for k
      using inv_times [OF assms(1), of k] by (simp add: s')
    show "desired_ackno s' = seqno s'" if "outstanding s' = []"
      using that inv_desired_Nil [OF assms(1)] by (simp add: s')
    show "desired_ackno s' \<in> set (dict_keys (outstanding s'))" if "outstanding s' \<noteq> []"
      using that inv_desired_mem [OF assms(1)] by (simp add: s')
    show "state s' \<le> 3" by (simp add: s')
    show "body s' \<noteq> None" if "state s' = 1"
      using that by (simp add: s' split: if_splits)
    show "outstanding s' \<noteq> []" if "have_more_data s'" "2 \<le> state s'"
      using that by (simp add: s' split: if_splits)
  qed
qed

lemma inv_state1:
  assumes "inv s" and "state1 e s = Inr s'"
  shows "inv s'"
  using assms(2)
proof (rule state1_Inr)
  fix hdr b
  assume s': "s' = s\<lparr> send_times := (send_times s)(seqno s \<mapsto> clock e),
                  sent := sent s @ [hdr @ b],
                  traced := traced s @ [(seqno s, clock e - start s, 0, 0)],
                  outstanding := dict_set (seqno s) (hdr @ b) (outstanding s),
                  seqno := seqno s + 1,
                  state := (if cwnd s \<le> of_nat (length (dict_set (seqno s) (hdr @ b) (outstanding s)))
                            then 2 else 0) \<rparr>"
  show ?thesis
  proof (rule invI)
    show "1 \<le> cwnd s'" using inv_cwnd [OF assms(1)] by (simp add: s')
    show "k < seqno s'" if "k \<in> set (dict_keys (outstanding s'))" for k
      using that inv_keys [OF assms(1), of k] by (auto simp: s' keys_dict_set)
    show "(send_times s' k \<noteq> None) = (k < seqno s')" for k
      using inv_times [OF assms(1), of k] by (auto simp: s')
    show "desired_ackno s' = seqno s'" if "outstanding s' = []"
      using that by (simp add: s' dict_set_not_Nil)
    show "desired_ackno s' \<in> set (dict_keys (outstanding s'))" if "outstanding s' \<noteq> []"
      using inv_desired_Nil [OF assms(1)] inv_desired_mem [OF assms(1)]
      by (cases "outstanding s = []") (simp_all add: s' keys_dict_set dict_keys_simps)
    show "state s' \<le> 3" by (simp add: s')
    show "body s' \<noteq> None" if "state s' = 1"
      using that by (simp add: s' split: if_splits)
    show "outstanding s' \<noteq> []" if "have_more_data s'" "2 \<le> state s'"
      by (simp add: s' dict_set_not_Nil)
  qed
qed

lemma inv_on_ack:
  assumes "inv s" and "on_ack a tR s = Inr s'"
  shows "inv s'"
  using assms(2)
proof (rule on_ack_Inr)
  fix ts
  assume f: "outstanding s' = dict_del a (outstanding s)"
    "desired_ackno s' =
       (if a = desired_ackno s then first_key (outstanding s') (seqno s) else desired_ackno s)"
    "cwnd s' =
       (if a = desired_ackno s
        then (if cwnd s < ssthresh s then cwnd s + 1 else cwnd s + 1 / cwnd s)
        else cwnd s)"
    "state s' =
       (if a = desired_ackno s then 0
        else if cwnd s \<le> of_nat (length (outstanding s')) then 2 else 0)"
    "seqno s' = seqno s" "send_times s' = send_times s" "body s' = body s"
    "have_more_data s' = have_more_data s"
  note c = inv_cwnd [OF assms(1)]
  show ?thesis
  proof (rule invI)
    have "0 \<le> 1 / cwnd s" using c by simp
    with c have "1 \<le> cwnd s + 1 / cwnd s" by linarith
    with c show "1 \<le> cwnd s'" unfolding f(3) by auto
    show "k < seqno s'" if "k \<in> set (dict_keys (outstanding s'))" for k
      using that inv_keys [OF assms(1), of k] by (simp add: f keys_dict_del)
    show "(send_times s' k \<noteq> None) = (k < seqno s')" for k
      using inv_times [OF assms(1), of k] by (simp add: f)
    show "desired_ackno s' = seqno s'" if e: "outstanding s' = []"
    proof (cases "a = desired_ackno s")
      case True
      then show ?thesis by (simp add: f(2,5) e first_key_Nil)
    next
      case False
      have "set (dict_keys (outstanding s)) - {a} = {}"
        using e f(1) keys_dict_del [of a "outstanding s"] by (simp add: dict_keys_simps)
      then have "outstanding s = []"
        using False inv_desired_mem [OF assms(1)] by auto
      then show ?thesis using inv_desired_Nil [OF assms(1)] False by (simp add: f)
    qed
    show "desired_ackno s' \<in> set (dict_keys (outstanding s'))" if ne: "outstanding s' \<noteq> []"
    proof (cases "a = desired_ackno s")
      case True
      then show ?thesis using ne by (simp add: f(2) first_key_mem)
    next
      case False
      have "outstanding s \<noteq> []" using ne f(1) by (auto simp: dict_del_def)
      then have "desired_ackno s \<in> set (dict_keys (outstanding s))"
        by (rule inv_desired_mem [OF assms(1)])
      then show ?thesis using False by (simp add: f(1,2) keys_dict_del)
    qed
    show "state s' \<le> 3" by (simp add: f(4))
    show "body s' \<noteq> None" if "state s' = 1"
      using that by (simp add: f(4) split: if_splits)
    show "outstanding s' \<noteq> []" if "have_more_data s'" "2 \<le> state s'"
      using that c by (auto simp: f(4) split: if_splits)
  qed
qed

lemma guard_outstanding:
  assumes "inv s" and "loop_guard s" and "2 \<le> state s"
  shows "outstanding s \<noteq> []"
  using assms(2) inv_out [OF assms(1) _ assms(3)] by (auto simp: loop_guard_def)

lemma inv_on_timeout:
  assumes "inv s" and "loop_guard s" and "2 \<le> state s"
  shows "inv (on_timeout s)"
proof (rule invI)
  note ne = guard_outstanding [OF assms]
  show "1 \<le> cwnd (on_timeout s)" by (simp add: on_timeout_def)
  show "k < seqno (on_timeout s)" if "k \<in> set (dict_keys (outstanding (on_timeout s)))" for k
    using that inv_keys [OF assms(1), of k] by (simp add: on_timeout_def)
  show "(send_times (on_timeout s) k \<noteq> None) = (k < seqno (on_timeout s))" for k
    using inv_times [OF assms(1), of k] by (simp add: on_timeout_def)
  show "desired_ackno (on_timeout s) = seqno (on_timeout s)" if "outstanding (on_timeout s) = []"
    using that ne by (simp add: on_timeout_def)
  show "desired_ackno (on_timeout s) \<in> set (dict_keys (outstanding (on_timeout s)))"
    using inv_desired_mem [OF assms(1) ne] by (simp add: on_timeout_def)
  show "state (on_timeout s) \<le> 3" by (simp add: on_timeout_def)
  show "body (on_timeout s) \<noteq> None" if "state (on_timeout s) = 1"
    using that by (simp add: on_timeout_def)
  show "outstanding (on_timeout s) \<noteq> []" using ne by (simp add: on_timeout_def)
qed

lemma inv_state2:
  assumes "inv s" and "loop_guard s" and "state s = 2" and "state2 e s = Inr s'"
  shows "inv s'"
proof (cases "chan e")
  case Timeout
  with state2_Inr [OF assms(4)] have "s' = on_timeout s" by simp
  then show ?thesis using inv_on_timeout [OF assms(1,2)] assms(3) by simp
next
  case SocketErr
  with state2_Inr [OF assms(4)] have "s' = on_timeout s" by simp
  then show ?thesis using inv_on_timeout [OF assms(1,2)] assms(3) by simp
next
  case (Datagram d)
  with state2_Inr [OF assms(4)] obtain a where "on_ack a (clock e) s = Inr s'" by auto
  then show ?thesis by (rule inv_on_ack [OF assms(1)])
qed

lemma desired_sent:
  assumes "inv s" and "loop_guard s" and "2 \<le> state s"
  shows "desired_ackno s \<in> set (dict_keys (outstanding s))" and "desired_ackno s < seqno s"
proof -
  show m: "desired_ackno s \<in> set (dict_keys (outstanding s))"
    by (rule inv_desired_mem [OF assms(1) guard_outstanding [OF assms]])
  show "desired_ackno s < seqno s"
    by (rule inv_keys [OF assms(1) m])
qed

lemma inv_state3:
  assumes "inv s" and "loop_guard s" and "state s = 3" and "state3 e s = Inr s'"
  shows "inv s'"
  using assms(4)
proof (rule state3_Inr)
  fix pkt
  assume s': "s' = s\<lparr> send_times := (send_times s)(desired_ackno s \<mapsto> clock e),
                  sent := sent s @ [pkt],
                  traced := traced s @ [(seqno s, clock e - start s, 0, 0)],
                  state := 2 \<rparr>"
  have d: "desired_ackno s < seqno s"
    using desired_sent(2) [OF assms(1,2)] assms(3) by simp
  have ne: "outstanding s \<noteq> []"
    using guard_outstanding [OF assms(1,2)] assms(3) by simp
  show ?thesis
  proof (rule invI)
    show "1 \<le> cwnd s'" using inv_cwnd [OF assms(1)] by (simp add: s')
    show "k < seqno s'" if "k \<in> set (dict_keys (outstanding s'))" for k
      using that inv_keys [OF assms(1), of k] by (simp add: s')
    show "(send_times s' k \<noteq> None) = (k < seqno s')" for k
      using inv_times [OF assms(1), of k] d by (auto simp: s')
    show "desired_ackno s' = seqno s'" if "outstanding s' = []"
      using that ne by (simp add: s')
    show "desired_ackno s' \<in> set (dict_keys (outstanding s'))"
      using inv_desired_mem [OF assms(1) ne] by (simp add: s')
    show "state s' \<le> 3" by (simp add: s')
    show "body s' \<noteq> None" if "state s' = 1"
      using that by (simp add: s')
    show "outstanding s' \<noteq> []" using ne by (simp add: s')
  qed
qed

lemma inv_state_cases: "inv s \<Longrightarrow> state s = 0 \<or> state s = 1 \<or> state s = 2 \<or> state s = 3"
proof -
  assume "inv s"
  then have "state s \<le> 3" by (rule inv_state)
  then show ?thesis by arith
qed

lemma inv_not_Break:
  assumes "inv s"
  shows "loop_body e s \<noteq> Break s'"
  using inv_state_cases [OF assms]
  by (elim disjE) (simp_all add: loop_body_def lift_not_Break)

lemma inv_loop_body:
  assumes "inv s" and "loop_guard s" and b: "loop_body e s = Continue s'"
  shows "inv s'"
  using inv_state_cases [OF assms(1)]
proof (elim disjE)
  assume "state s = 0"
  with b have "state0 e s = Inr s'" by (simp add: loop_body_def lift_Continue)
  then show ?thesis by (rule inv_state0 [OF assms(1)])
next
  assume "state s = 1"
  with b have "state1 e s = Inr s'" by (simp add: loop_body_def lift_Continue)
  then show ?thesis by (rule inv_state1 [OF assms(1)])
next
  assume s: "state s = 2"
  with b have "state2 e s = Inr s'" by (simp add: loop_body_def lift_Continue)
  then show ?thesis by (rule inv_state2 [OF assms(1,2) s])
next
  assume s: "state s = 3"
  with b have "state3 e s = Inr s'" by (simp add: loop_body_def lift_Continue)
  then show ?thesis by (rule inv_state3 [OF assms(1,2) s])
qed

text \<open>A property that every pass of the loop keeps holds wherever the loop stands or
  stops.\<close>

lemma main_loop_keeps:
  assumes step: "\<And>e s s'. I s \<Longrightarrow> inv s \<Longrightarrow> loop_guard s \<Longrightarrow> loop_body e s = Continue s' \<Longrightarrow> I s'"
  shows "I s \<Longrightarrow> inv s \<Longrightarrow>
   (case main_loop es s of
      Failed x \<Rightarrow> True
    | Finished s' \<Rightarrow> I s' \<and> inv s' \<and> \<not> loop_guard s'
    | Pending s' \<Rightarrow> I s' \<and> inv s' \<and> loop_guard s')"
proof (induction es arbitrary: s)
  case Nil
  then show ?case by simp
next
  case (Cons e es)
  show ?case
  proof (cases "loop_guard s")
    case False
    with Cons.prems show ?thesis by simp
  next
    case True
    show ?thesis
    proof (cases "loop_body e s")
      case (Raise x)
      with True show ?thesis by simp
    next
      case (Break s'')
      with inv_not_Break [OF Cons.prems(2)] show ?thesis by simp
    next
      case (Continue s'')
      have "I s''" by (rule step [OF Cons.prems True Continue])
      moreover have "inv s''" by (rule inv_loop_body [OF Cons.prems(2) True Continue])
      ultimately show ?thesis using Cons.IH [of s''] True Continue by simp
    qed
  qed
qed

lemma guard_Pending: "main_loop es s0 = Pending s \<Longrightarrow> loop_guard s"
  by (induction es arbitrary: s0) (auto split: if_splits flow.splits)

lemma inv_Pending:
  assumes "main n t t0 es = Pending s"
  shows "inv s" and "loop_guard s"
proof -
  show "inv s"
    using assms main_loop_keeps [of "\<lambda>s. True" "init n t t0" es, OF _ _ inv_init]
    by (simp add: main_def)
  show "loop_guard s"
    using assms guard_Pending [of es "init n t t0" s] by (simp add: main_def)
qed

subsection \<open>Evaluating runs\<close>

lemmas run_defs = main_def init_def loop_guard_def loop_body_def lift_def state0_def state1_def
  state2_def state3_def try_body_def on_ack_def on_timeout_def pack_II_def unpack_II_def
  magic_def be32_def from_be_def dict_keys_def dict_del_def first_key_def
  estimated_rtt_calc_def dev_rtt_calc_def Let_def chunk_def no_data_def tick_def arrives_def
  ack_for_def

lemma demo_reached: "main 2 1 0 demo_run = Pending demo"
  by (simp add: demo_run_def demo_def run_defs flip: numeral_2_eq_2)

lemma floor_half: "\<lfloor>(1::rat) / 2\<rfloor> = 0"
  by (rule floor_unique) simp_all

lemma demo_on_ack: "on_ack 1 6 demo = Inr demo_acked"
  by (simp add: demo_def demo_acked_def on_ack_def dict_keys_def dict_del_def first_key_def
      estimated_rtt_calc_def dev_rtt_calc_def Let_def)

lemma demo_then_waiting: "main_loop [no_data] demo_acked = Pending demo_waiting"
  by (simp add: demo_waiting_def demo_acked_def demo_def loop_guard_def loop_body_def lift_def
      state0_def no_data_def Let_def)

lemma demo_then_more: "state1 (tick 7) demo_more = Inr demo_sent"
  by (simp add: demo_sent_def demo_more_def demo_acked_def demo_def state1_def pack_II_def
      magic_def be32_def tick_def Let_def flip: numeral_3_eq_3)


lemmas saw_defs = main_saw_def init_saw_def loop_body_saw_def lift_def state0_saw_def
  state1_saw_def state2_saw_def pack_II_def unpack_II_def magic_def be32_def from_be_def
  Let_def chunk_def no_data_def tick_def arrives_def ack_for_def

lemmas burst_defs = main_burst_def init_burst_def loop_body_burst_def lift_def
  state0_burst_def state1_burst_def state2_burst_def pack_II_def magic_def be32_def
  Let_def chunk_def no_data_def tick_def

section \<open>The round-trip-time estimator\<close>

lemma on_ack_succeeds:
  assumes "inv s" and "send_times s a = Some ts"
  shows "\<exists>s'. on_ack a tR s = Inr s'"
proof -
  have "cwnd s \<noteq> 0" using inv_cwnd [OF assms(1)] by auto
  then show ?thesis using assms(2) by (simp add: on_ack_def Let_def)
qed

lemma rtt_calc_eqs:
  "estimated_rtt_calc x e = 0.125 * x + 0.875 * e"
  "dev_rtt_calc x e d = 0.25 * \<bar>x - e\<bar> + 0.75 * d"
  by (simp_all add: estimated_rtt_calc_def dev_rtt_calc_def Let_def)



section \<open>The congestion window on an ACK\<close>




section \<open>Duplicate ACKs\<close>

lemma settled_on_ack_same:
  assumes "inv s" and "on_ack a tR s = Inr s'"
  shows "settled a s'"
  using assms(2)
proof (rule on_ack_Inr)
  fix ts
  assume f: "send_times s a = Some ts" "outstanding s' = dict_del a (outstanding s)"
    "desired_ackno s' =
       (if a = desired_ackno s then first_key (outstanding s') (seqno s) else desired_ackno s)"
    "seqno s' = seqno s"
  have lt: "a < seqno s" using inv_times [OF assms(1), of a] f(1) by simp
  have nk: "a \<notin> set (dict_keys (outstanding s'))" by (simp add: f(2) keys_dict_del)
  have "desired_ackno s' \<noteq> a"
  proof (cases "a = desired_ackno s")
    case False
    then show ?thesis by (simp add: f(3))
  next
    case True
    show ?thesis
    proof (cases "outstanding s' = []")
      case True
      with \<open>a = desired_ackno s\<close> lt show ?thesis by (simp add: f(3) first_key_Nil)
    next
      case False
      then have "first_key (outstanding s') (seqno s) \<in> set (dict_keys (outstanding s'))"
        by (rule first_key_mem)
      with nk \<open>a = desired_ackno s\<close> show ?thesis by (auto simp: f(3))
    qed
  qed
  with lt nk show ?thesis by (auto simp: settled_def f(4))
qed

lemma settled_on_ack:
  assumes "settled a s" and "on_ack b tR s = Inr s'"
  shows "settled a s'"
  using assms(2)
proof (rule on_ack_Inr)
  fix ts
  assume f: "outstanding s' = dict_del b (outstanding s)"
    "desired_ackno s' =
       (if b = desired_ackno s then first_key (outstanding s') (seqno s) else desired_ackno s)"
    "seqno s' = seqno s"
  have lt: "a < seqno s" and nk: "a \<notin> set (dict_keys (outstanding s))"
    and nd: "a \<noteq> desired_ackno s"
    using assms(1) by (simp_all add: settled_def)
  have nk': "a \<notin> set (dict_keys (outstanding s'))" using nk by (simp add: f(1) keys_dict_del)
  have "desired_ackno s' \<noteq> a"
  proof (cases "b = desired_ackno s")
    case False
    then show ?thesis using nd by (simp add: f(2))
  next
    case True
    show ?thesis
    proof (cases "outstanding s' = []")
      case True
      with \<open>b = desired_ackno s\<close> lt show ?thesis by (simp add: f(2) first_key_Nil)
    next
      case False
      then have "first_key (outstanding s') (seqno s) \<in> set (dict_keys (outstanding s'))"
        by (rule first_key_mem)
      with nk' \<open>b = desired_ackno s\<close> show ?thesis by (auto simp: f(2))
    qed
  qed
  with lt nk' show ?thesis by (auto simp: settled_def f(3))
qed

lemma settled_loop_body:
  assumes "settled a s" and "inv s" and "loop_guard s" and b: "loop_body e s = Continue s'"
  shows "settled a s'"
  using inv_state_cases [OF assms(2)]
proof (elim disjE)
  assume "state s = 0"
  with b have "state0 e s = Inr s'" by (simp add: loop_body_def lift_Continue)
  from state0_Inr [OF this] show ?thesis using assms(1) by (simp add: settled_def)
next
  assume "state s = 1"
  with b have "state1 e s = Inr s'" by (simp add: loop_body_def lift_Continue)
  then show ?thesis
    using assms(1) by (elim state1_Inr) (auto simp: settled_def keys_dict_set)
next
  assume "state s = 2"
  with b have s2: "state2 e s = Inr s'" by (simp add: loop_body_def lift_Continue)
  show ?thesis
  proof (cases "chan e")
    case Timeout
    with state2_Inr [OF s2] have "s' = on_timeout s" by simp
    then show ?thesis using assms(1) by (simp add: settled_def on_timeout_def)
  next
    case SocketErr
    with state2_Inr [OF s2] have "s' = on_timeout s" by simp
    then show ?thesis using assms(1) by (simp add: settled_def on_timeout_def)
  next
    case (Datagram d)
    with state2_Inr [OF s2] obtain b where "on_ack b (clock e) s = Inr s'" by auto
    then show ?thesis by (rule settled_on_ack [OF assms(1)])
  qed
next
  assume "state s = 3"
  with b have "state3 e s = Inr s'" by (simp add: loop_body_def lift_Continue)
  then show ?thesis
    using assms(1) by (elim state3_Inr) (simp add: settled_def)
qed

lemma settled_main_loop:
  assumes "settled a s" and "inv s" and "main_loop es s = Pending s'"
  shows "settled a s'" and "inv s'"
  using main_loop_keeps [of "settled a" s es, OF settled_loop_body assms(1,2)] assms(3)
  by simp_all

lemma settled_noop:
  assumes "settled a s" and "inv s"
  shows "\<exists>s'. on_ack a tR s = Inr s' \<and> outstanding s' = outstanding s \<and> cwnd s' = cwnd s \<and>
           ssthresh s' = ssthresh s \<and> desired_ackno s' = desired_ackno s"
proof -
  have lt: "a < seqno s" and nk: "a \<notin> set (dict_keys (outstanding s))"
    and nd: "a \<noteq> desired_ackno s"
    using assms(1) by (simp_all add: settled_def)
  obtain ts where "send_times s a = Some ts"
    using inv_times [OF assms(2), of a] lt by auto
  then obtain s' where s': "on_ack a tR s = Inr s'"
    using on_ack_succeeds [OF assms(2)] by blast
  have "outstanding s' = outstanding s \<and> cwnd s' = cwnd s \<and>
        ssthresh s' = ssthresh s \<and> desired_ackno s' = desired_ackno s"
    using s' nd nk by (elim on_ack_Inr) (simp add: dict_del_absent)
  with s' show ?thesis by blast
qed

text \<open>
  C9. Wherever the loop stands, once an ACK for \<open>a\<close> has been processed, the same ACK
  delivered again (at once, or after any further passes of the loop) is processed
  without an exception and leaves \<open>outstanding\<close>, \<open>cwnd\<close> and \<open>ssthresh\<close> as they are.
\<close>

theorem duplicate_ack_idempotent:
  assumes "main n t t0 es = Pending s" and "on_ack a tRecv s = Inr s1"
    and "main_loop es' s1 = Pending s2"
  shows "\<exists>s3. on_ack a tRecv' s2 = Inr s3 \<and> outstanding s3 = outstanding s2 \<and>
           cwnd s3 = cwnd s2 \<and> ssthresh s3 = ssthresh s2"
proof -
  note i = inv_Pending(1) [OF assms(1)]
  have "settled a s1" by (rule settled_on_ack_same [OF i assms(2)])
  moreover have "inv s1" by (rule inv_on_ack [OF i assms(2)])
  ultimately have "settled a s2" and "inv s2"
    using settled_main_loop [OF _ _ assms(3)] by blast+
  from settled_noop [OF this, of tRecv'] show ?thesis by blast
qed

theorem duplicate_ack_idempotent_witness:
  "main 2 1 0 demo_run = Pending demo \<and> on_ack 1 6 demo = Inr demo_acked \<and>
   main_loop [no_data] demo_acked = Pending demo_waiting \<and>
   (\<exists>s3. on_ack 1 7 demo_waiting = Inr s3 \<and> outstanding s3 = outstanding demo_waiting \<and>
      cwnd s3 = cwnd demo_waiting \<and> ssthresh s3 = ssthresh demo_waiting)"
  using duplicate_ack_idempotent [OF demo_reached demo_on_ack demo_then_waiting, of 7]
    demo_reached demo_on_ack demo_then_waiting
  by simp

section \<open>ACKs for sequence numbers that are not outstanding\<close>

lemma unsent_ack_raises: "send_times s a = None \<Longrightarrow> on_ack a tRecv s = Inl KeyError"
  by (simp add: on_ack_def)

text \<open>
  C1, as stated, fails: the send time of a sequence number is kept after its ACK, and
  \<open>estimated_rtt\<close>, \<open>dev_rtt\<close> and \<open>timeout\<close> are recomputed for every ACK whose number has a
  send time. In \<open>demo\<close>, sequence number 0 was sent and acknowledged; a second ACK for
  it at clock reading 9 moves the estimate from 9/8 to 127/64, the deviation from 7/32
  to 427/256 and the timeout from 2 to 277/32.
\<close>

theorem stale_ack_counterexample:
  "main 2 1 0 demo_run = Pending demo \<and> 0 < seqno demo \<and>
   0 \<notin> set (dict_keys (outstanding demo)) \<and>
   estimated_rtt demo = 9 / 8 \<and> dev_rtt demo = 7 / 32 \<and> timeout demo = 2 \<and>
   map_flow estimated_rtt (loop_body (arrives (ack_for 0) 9) demo) = Continue (127 / 64) \<and>
   map_flow dev_rtt (loop_body (arrives (ack_for 0) 9) demo) = Continue (427 / 256) \<and>
   map_flow timeout (loop_body (arrives (ack_for 0) 9) demo) = Continue (277 / 32)"
  using demo_reached
  by (simp add: demo_def loop_body_def lift_def state2_def try_body_def on_ack_def
      unpack_II_def from_be_def ack_for_def be32_def magic_def arrives_def dict_keys_def
      estimated_rtt_calc_def dev_rtt_calc_def Let_def)

text \<open>
  C1, amended. Wherever the loop stands in state 2, a received ACK whose number \<open>a\<close> was
  sent earlier and is no longer in \<open>outstanding\<close> is processed without an exception and
  leaves \<open>outstanding\<close>, \<open>cwnd\<close> and \<open>ssthresh\<close> as they are; the timing state is updated from
  the send time recorded for \<open>a\<close>.
\<close>

theorem stale_ack:
  assumes "main n t t0 es = Pending s" and "state s = 2"
    and "unpack_II ack = Inr (m, a)"
    and "a < seqno s" and "a \<notin> set (dict_keys (outstanding s))"
  shows "\<exists>s' ts. try_body ack tRecv s = Inr s' \<and>
           outstanding s' = outstanding s \<and> cwnd s' = cwnd s \<and> ssthresh s' = ssthresh s \<and>
           send_times s a = Some ts \<and>
           estimated_rtt s' = 0.125 * (tRecv - ts) + 0.875 * estimated_rtt s \<and>
           dev_rtt s' = 0.25 * \<bar>(tRecv - ts) - estimated_rtt s'\<bar> + 0.75 * dev_rtt s \<and>
           timeout s' = estimated_rtt s' + 4 * dev_rtt s'"
proof -
  note i = inv_Pending [OF assms(1)]
  have "desired_ackno s \<in> set (dict_keys (outstanding s))"
    using desired_sent(1) [OF i] assms(2) by simp
  with assms(4,5) have "settled a s" by (auto simp: settled_def)
  from settled_noop [OF this i(1), of tRecv] obtain s'
    where s': "on_ack a tRecv s = Inr s'" and same: "outstanding s' = outstanding s"
      "cwnd s' = cwnd s" "ssthresh s' = ssthresh s"
    by blast
  have "\<exists>ts. send_times s a = Some ts \<and>
          estimated_rtt s' = 0.125 * (tRecv - ts) + 0.875 * estimated_rtt s \<and>
          dev_rtt s' = 0.25 * \<bar>(tRecv - ts) - estimated_rtt s'\<bar> + 0.75 * dev_rtt s \<and>
          timeout s' = estimated_rtt s' + 4 * dev_rtt s'"
    using s' by (elim on_ack_Inr) (simp add: rtt_calc_eqs)
  moreover have "try_body ack tRecv s = Inr s'"
    using s' assms(3) by (simp add: try_body_def)
  ultimately show ?thesis using same by blast
qed

theorem stale_ack_witness:
  "main 2 1 0 demo_run = Pending demo \<and> state demo = 2 \<and>
   unpack_II (ack_for 0) = Inr (magic, 0) \<and> 0 < seqno demo \<and>
   0 \<notin> set (dict_keys (outstanding demo)) \<and>
   (\<exists>s' ts. try_body (ack_for 0) 9 demo = Inr s' \<and>
      outstanding s' = outstanding demo \<and> cwnd s' = cwnd demo \<and> ssthresh s' = ssthresh demo \<and>
      send_times demo 0 = Some ts \<and>
      estimated_rtt s' = 0.125 * (9 - ts) + 0.875 * estimated_rtt demo \<and>
      dev_rtt s' = 0.25 * \<bar>(9 - ts) - estimated_rtt s'\<bar> + 0.75 * dev_rtt demo \<and>
      timeout s' = estimated_rtt s' + 4 * dev_rtt s')"
proof -
  have h: "state demo = 2" "0 < seqno demo" "0 \<notin> set (dict_keys (outstanding demo))"
    by (simp_all add: demo_def dict_keys_def)
  have u: "unpack_II (ack_for 0) = Inr (magic, 0)"
    by (simp add: unpack_II_def ack_for_def be32_def from_be_def magic_def)
  show ?thesis
    using stale_ack [OF demo_reached h(1) u h(2,3), of 9] demo_reached h u by simp
qed

section \<open>The retransmission timeout\<close>

lemma ssthresh_loop_body:
  assumes "ssthresh_inv n s" and "inv s" and "loop_guard s" and b: "loop_body e s = Continue s'"
  shows "ssthresh_inv n s'"
  using inv_state_cases [OF assms(2)]
proof (elim disjE)
  assume "state s = 0"
  with b have "state0 e s = Inr s'" by (simp add: loop_body_def lift_Continue)
  from state0_Inr [OF this] show ?thesis using assms(1) by (simp add: ssthresh_inv_def)
next
  assume "state s = 1"
  with b have "state1 e s = Inr s'" by (simp add: loop_body_def lift_Continue)
  then show ?thesis
    using assms(1) by (elim state1_Inr) (simp add: ssthresh_inv_def)
next
  assume "state s = 2"
  with b have s2: "state2 e s = Inr s'" by (simp add: loop_body_def lift_Continue)
  have "0 \<le> cwnd s / 2" using inv_cwnd [OF assms(2)] by simp
  then have "(0::rat) \<le> of_int \<lfloor>cwnd s / 2\<rfloor>" by simp
  moreover have "min 0 (rat_of_int n) \<le> 0" by simp
  ultimately have "min 0 (rat_of_int n) \<le> of_int \<lfloor>cwnd s / 2\<rfloor>" by (rule order_trans [rotated])
  then have t: "ssthresh_inv n (on_timeout s)"
    by (simp add: ssthresh_inv_def on_timeout_def)
  show ?thesis
  proof (cases "chan e")
    case Timeout
    with state2_Inr [OF s2] t show ?thesis by simp
  next
    case SocketErr
    with state2_Inr [OF s2] t show ?thesis by simp
  next
    case (Datagram d)
    with state2_Inr [OF s2] obtain a where "on_ack a (clock e) s = Inr s'" by auto
    then show ?thesis using assms(1) by (elim on_ack_Inr) (simp add: ssthresh_inv_def)
  qed
next
  assume "state s = 3"
  with b have "state3 e s = Inr s'" by (simp add: loop_body_def lift_Continue)
  then show ?thesis
    using assms(1) by (elim state3_Inr) (simp add: ssthresh_inv_def)
qed

lemma ssthresh_main:
  "case main n t t0 es of
     Failed x \<Rightarrow> True
   | Finished s \<Rightarrow> 1 \<le> cwnd s \<and> min 0 (of_int n) \<le> ssthresh s
   | Pending s \<Rightarrow> 1 \<le> cwnd s \<and> min 0 (of_int n) \<le> ssthresh s"
proof -
  have "case main_loop es (init n t t0) of
          Failed x \<Rightarrow> True
        | Finished s' \<Rightarrow> ssthresh_inv n s' \<and> inv s' \<and> \<not> loop_guard s'
        | Pending s' \<Rightarrow> ssthresh_inv n s' \<and> inv s' \<and> loop_guard s'"
  proof (rule main_loop_keeps)
    show "ssthresh_inv n s'"
      if "ssthresh_inv n s" "inv s" "loop_guard s" "loop_body e s = Continue s'" for e s s'
      using that by (rule ssthresh_loop_body)
    show "ssthresh_inv n (init n t t0)" by (simp add: ssthresh_inv_def init_def)
    show "inv (init n t t0)" by (rule inv_init)
  qed
  then show ?thesis
    by (cases "main_loop es (init n t t0)") (simp_all add: main_def ssthresh_inv_def inv_cwnd)
qed

text \<open>
  C2, as stated, fails: \<open>ssthresh = cwnd // 2\<close> has no lower bound of 1. With ssthresh 2
  and default timeout 1, chunk 0 is sent with \<open>cwnd = 1\<close> and the loop waits in state 2; a
  timeout then sets \<open>ssthresh\<close> to 0.
\<close>

theorem timeout_counterexample:
  "map_result ssthresh (main 2 1 0 [chunk [1], tick 1, silence]) = Pending 0 \<and>
   map_result cwnd (main 2 1 0 [chunk [1], tick 1]) = Pending 1 \<and>
   map_result state (main 2 1 0 [chunk [1], tick 1]) = Pending 2"
  by (simp add: run_defs silence_def floor_half)

text \<open>
  C2, amended. Wherever the loop stands in state 2 with a timeout the socket accepts, a
  receive that ends in \<open>socket.timeout\<close> or \<open>socket.error\<close> sets \<open>ssthresh\<close> to
  \<open>floor(cwnd / 2)\<close>, which is at least 0, sets \<open>cwnd\<close> to 1, doubles \<open>timeout\<close> and goes to
  state 3. After every pass of the loop \<open>cwnd\<close> is at least 1 and \<open>ssthresh\<close> is at least the
  smaller of 0 and its initial value \<open>n\<close>.
\<close>

theorem timeout_transition:
  assumes "main n t t0 es = Pending s" and "state s = 2" and "0 \<le> timeout s"
    and "chan e = Timeout \<or> chan e = SocketErr"
  shows "(\<exists>s'. loop_body e s = Continue s' \<and> ssthresh s' = of_int \<lfloor>cwnd s / 2\<rfloor> \<and>
            0 \<le> ssthresh s' \<and> cwnd s' = 1 \<and> timeout s' = timeout s * 2 \<and> state s' = 3) \<and>
         (case main n t t0 es' of
            Failed x \<Rightarrow> True
          | Finished s' \<Rightarrow> 1 \<le> cwnd s' \<and> min 0 (of_int n) \<le> ssthresh s'
          | Pending s' \<Rightarrow> 1 \<le> cwnd s' \<and> min 0 (of_int n) \<le> ssthresh s')"
proof -
  note i = inv_Pending [OF assms(1)]
  have "0 \<le> cwnd s / 2" using inv_cwnd [OF i(1)] by simp
  then have f: "(0::rat) \<le> of_int \<lfloor>cwnd s / 2\<rfloor>" by simp
  have "loop_body e s = Continue (on_timeout s)"
    using assms(2,3,4) by (auto simp: loop_body_def lift_def state2_def)
  then have "\<exists>s'. loop_body e s = Continue s' \<and> ssthresh s' = of_int \<lfloor>cwnd s / 2\<rfloor> \<and>
            0 \<le> ssthresh s' \<and> cwnd s' = 1 \<and> timeout s' = timeout s * 2 \<and> state s' = 3"
    using f by (simp add: on_timeout_def)
  then show ?thesis using ssthresh_main [of n t t0 es'] by blast
qed

theorem timeout_transition_witness:
  "main 2 1 0 demo_run = Pending demo \<and> state demo = 2 \<and> 0 \<le> timeout demo \<and>
   chan silence = Timeout \<and>
   (\<exists>s'. loop_body silence demo = Continue s' \<and> ssthresh s' = of_int \<lfloor>cwnd demo / 2\<rfloor> \<and>
      0 \<le> ssthresh s' \<and> cwnd s' = 1 \<and> timeout s' = timeout demo * 2 \<and> state s' = 3) \<and>
   1 \<le> cwnd demo \<and> min 0 (of_int 2) \<le> ssthresh demo"
proof -
  have h: "state demo = 2" "0 \<le> timeout demo" by (simp_all add: demo_def)
  have c: "chan silence = Timeout" by (simp add: silence_def)
  show ?thesis
    using timeout_transition [OF demo_reached h, of silence demo_run] demo_reached h c
    by simp
qed

section \<open>Decoding a received ACK\<close>

text \<open>
  C3, as stated, fails: \<open>struct.unpack(">II", ack)\<close> wants exactly 8 bytes and its
  \<open>struct.error\<close> is not among the exceptions the \<open>except\<close> clause names. After chunk 0 is
  sent, a 3-byte datagram ends \<open>main\<close> with that exception, and so does a 9-byte one
  whose first 8 bytes are a well-formed ACK for 0.
\<close>

theorem ack_length_counterexample:
  "main 2 1 0 [chunk [1], tick 1, arrives [186, 173, 202] 3] = Failed StructError \<and>
   main 2 1 0 [chunk [1], tick 1, arrives (ack_for 0 @ [0]) 3] = Failed StructError"
  by (simp add: run_defs)

text \<open>
  C3, amended. In state 2 with a timeout the socket accepts, a received datagram whose
  length (after \<open>recvfrom(100)\<close> has cut it to 100 bytes) is not exactly 8 ends \<open>main\<close> with
  \<open>struct.error\<close>, whether it is shorter or longer; a datagram of exactly 8 bytes is
  processed as the ACK for the big-endian number in its last 4 bytes.
\<close>

theorem ack_length:
  assumes "state s = 2" and "0 \<le> timeout s" and "chan e = Datagram d"
  shows "loop_body e s =
           (if length (take 100 d) = 8 then lift (on_ack (from_be (drop 4 d)) (clock e) s)
            else Raise StructError)"
proof (cases "length (take 100 d) = 8")
  case True
  then have "length d = 8" by (simp add: min_def split: if_splits)
  then have "take 100 d = d" by simp
  with True show ?thesis
    using assms by (simp add: loop_body_def state2_def try_body_def unpack_II_def)
next
  case False
  then show ?thesis
    using assms by (simp add: loop_body_def state2_def try_body_def unpack_II_def lift_def)
qed

theorem ack_length_witness:
  "state demo = 2 \<and> 0 \<le> timeout demo \<and> chan (arrives [186, 173, 202] 9) = Datagram [186, 173, 202] \<and>
   loop_body (arrives [186, 173, 202] 9) demo = Raise StructError"
proof -
  have h: "state demo = 2" "0 \<le> timeout demo" by (simp_all add: demo_def)
  have c: "chan (arrives [186, 173, 202] 9) = Datagram [186, 173, 202]" by (simp add: arrives_def)
  show ?thesis
    using ack_length [OF h c] h c by simp
qed

section \<open>Admission of a new segment\<close>

text \<open>
  C4, as stated, fails: the comparison is \<open>len(outstanding) >= cwnd\<close>, against the window
  itself. In \<open>demo_more\<close> the window is 5/2; once the fourth chunk is sent, 2 segments are
  outstanding and the client goes back to state 0 for more data, although 2 is not below
  \<open>floor(5/2) = 2\<close>.
\<close>

theorem admission_counterexample:
  "main 2 1 0 (demo_run @ [arrives (ack_for 1) 6, chunk [4]]) = Pending demo_more \<and>
   state demo_more = 1 \<and> state1 (tick 7) demo_more = Inr demo_sent \<and>
   cwnd demo_sent = 5 / 2 \<and> length (outstanding demo_sent) = 2 \<and> state demo_sent = 0 \<and>
   \<not> int (length (outstanding demo_sent)) < \<lfloor>cwnd demo_sent\<rfloor>"
proof -
  have "\<lfloor>(5::rat) / 2\<rfloor> = 2" by (rule floor_unique) simp_all
  moreover have "main 2 1 0 (demo_run @ [arrives (ack_for 1) 6, chunk [4]]) = Pending demo_more"
    by (simp add: demo_run_def demo_more_def demo_acked_def demo_def run_defs
        flip: numeral_2_eq_2 numeral_3_eq_3)
  ultimately show ?thesis
    using demo_then_more
    by (simp add: demo_sent_def demo_more_def demo_acked_def demo_def)
qed

text \<open>
  C4, amended. At both places where the window is consulted (after a send in state 1, and
  after an ACK in state 2 whose number is not \<open>desired_ackno\<close>) the client goes on to
  state 0, to originate a new segment, exactly when the number of outstanding segments is
  below \<open>cwnd\<close> itself, and to state 2 otherwise.
\<close>

theorem admission:
  "(state1 e s = Inr s' \<longrightarrow>
      state s' = (if of_nat (length (outstanding s')) < cwnd s' then 0 else 2)) \<and>
   (a \<noteq> desired_ackno r \<and> on_ack a tRecv r = Inr r' \<longrightarrow>
      state r' = (if of_nat (length (outstanding r')) < cwnd r' then 0 else 2))"
proof (intro conjI impI)
  assume "state1 e s = Inr s'"
  then show "state s' = (if of_nat (length (outstanding s')) < cwnd s' then 0 else 2)"
    by (elim state1_Inr) (simp add: not_less)
next
  assume "a \<noteq> desired_ackno r \<and> on_ack a tRecv r = Inr r'"
  then have "on_ack a tRecv r = Inr r'" and "a \<noteq> desired_ackno r" by simp_all
  then show "state r' = (if of_nat (length (outstanding r')) < cwnd r' then 0 else 2)"
    by (elim on_ack_Inr) (simp add: not_less)
qed

theorem admission_witness:
  "state1 (tick 7) demo_more = Inr demo_sent \<and>
   state demo_sent = (if of_nat (length (outstanding demo_sent)) < cwnd demo_sent then 0 else 2) \<and>
   of_nat (length (outstanding demo_sent)) < cwnd demo_sent \<and>
   2 \<noteq> desired_ackno demo \<and>
   (\<exists>s''. on_ack 2 6 demo = Inr s'' \<and>
      state s'' = (if of_nat (length (outstanding s'')) < cwnd s'' then 0 else 2))"
proof -
  have ne: "2 \<noteq> desired_ackno demo" and t: "send_times demo 2 = Some 5"
    by (simp_all add: demo_def)
  obtain s2 where s2: "on_ack 2 6 demo = Inr s2"
    using on_ack_succeeds [OF inv_Pending(1) [OF demo_reached] t] by blast
  have l: "of_nat (length (outstanding demo_sent)) < cwnd demo_sent"
    by (simp add: demo_sent_def demo_more_def demo_acked_def demo_def)
  show ?thesis
    using admission [of "tick 7" demo_more demo_sent 2 demo 6 s2] demo_then_more ne s2 l
    by simp
qed

section \<open>Retransmission\<close>

text \<open>Every pass through state 3 sends one datagram, the one kept in \<open>outstanding\<close> for
  \<open>desired_ackno\<close>, records the clock reading as its send time and goes to state 2; the
  row it logs carries \<open>seqno\<close>, which is larger than \<open>desired_ackno\<close>.\<close>

lemma retransmit_pass:
  assumes "main n t t0 es = Pending s" and "state s = 3"
  shows "\<exists>pkt s'. map_of (outstanding s) (desired_ackno s) = Some pkt \<and>
           loop_body e s = Continue s' \<and> sent s' = sent s @ [pkt] \<and>
           send_times s' = (send_times s)(desired_ackno s \<mapsto> clock e) \<and>
           traced s' = traced s @ [(seqno s, clock e - start s, 0, 0)] \<and>
           desired_ackno s < seqno s \<and> outstanding s' = outstanding s \<and> state s' = 2"
proof -
  note i = inv_Pending [OF assms(1)]
  have m: "desired_ackno s \<in> set (dict_keys (outstanding s))" and l: "desired_ackno s < seqno s"
    using desired_sent [OF i] assms(2) by simp_all
  obtain pkt where "map_of (outstanding s) (desired_ackno s) = Some pkt"
    using m map_of_keys [of "outstanding s" "desired_ackno s"] by auto
  then show ?thesis
    using assms(2) l by (simp add: loop_body_def lift_def state3_def Let_def)
qed

text \<open>
  C7. With ssthresh 2 and default timeout 1, chunk 0 is sent at clock reading 1 and no ACK
  arrives. The pass through state 3, at clock reading 5, sends the datagram of sequence
  number 0 once more and goes to state 2, but the row it gives to \<open>trace.write\<close> carries
  \<open>seqno = 1\<close>, the number of the next new segment, not the number 0 of the segment that
  was sent again.
\<close>

theorem retransmit_log:
  "map_result desired_ackno (main 2 1 0 [chunk [1], tick 1, silence]) = Pending 0 \<and>
   map_result seqno (main 2 1 0 [chunk [1], tick 1, silence]) = Pending 1 \<and>
   map_result state (main 2 1 0 [chunk [1], tick 1, silence]) = Pending 3 \<and>
   map_result sent (main 2 1 0 [chunk [1], tick 1, silence]) =
     Pending [[186, 173, 202, 254, 0, 0, 0, 0, 1]] \<and>
   map_result traced (main 2 1 0 [chunk [1], tick 1, silence]) = Pending [(0, 1, 0, 0)] \<and>
   map_result sent (main 2 1 0 [chunk [1], tick 1, silence, tick 5]) =
     Pending [[186, 173, 202, 254, 0, 0, 0, 0, 1], [186, 173, 202, 254, 0, 0, 0, 0, 1]] \<and>
   map_result traced (main 2 1 0 [chunk [1], tick 1, silence, tick 5]) =
     Pending [(0, 1, 0, 0), (1, 5, 0, 0)] \<and>
   map_result state (main 2 1 0 [chunk [1], tick 1, silence, tick 5]) = Pending 2"
  by (simp add: run_defs silence_def floor_half)

section \<open>Queries to the data source\<close>











section \<open>The stop-and-wait and burst clients beside the windowed client\<close>

text \<open>
  C10, as stated, fails. \<open>client_saw.py\<close> takes any ACK for the one it waits for and has
  no timeout; \<open>client_burst1.py\<close> never receives. With two chunks and the ACK for 0
  delivered twice, the stop-and-wait client finishes with \<open>seqno = 2\<close>, while the windowed
  client, given the same chunks and the same two ACKs, still stands in its loop with
  sequence number 1 outstanding. With one chunk and no ACK at all, the burst client
  finishes after one datagram, while the windowed client sends the datagram a second
  time.
\<close>

theorem variants_counterexample:
  "map_result seqno_saw
     (main_saw 0 [chunk [1], tick 1, arrives (ack_for 0) 2, chunk [2], tick 3,
                  arrives (ack_for 0) 4, no_data]) = Finished 2 \<and>
   map_result outstanding
     (main 1 1 0 [chunk [1], tick 1, arrives (ack_for 0) 2, chunk [2], tick 3, no_data,
                  arrives (ack_for 0) 4, no_data]) =
     Pending [(1, [186, 173, 202, 254, 0, 0, 0, 1, 2])] \<and>
   map_result sent_burst (main_burst 50 1 0 [chunk [1], silence, tick 1, no_data]) =
     Finished [[186, 173, 202, 254, 0, 0, 0, 0, 1]] \<and>
   map_result sent (main 50 1 0 [chunk [1], tick 1, silence, tick 3]) =
     Pending [[186, 173, 202, 254, 0, 0, 0, 0, 1], [186, 173, 202, 254, 0, 0, 0, 0, 1]]"
proof -
  have "map_result seqno_saw
     (main_saw 0 [chunk [1], tick 1, arrives (ack_for 0) 2, chunk [2], tick 3,
                  arrives (ack_for 0) 4, no_data]) = Finished 2"
    by (simp add: saw_defs)
  moreover have "map_result outstanding
     (main 1 1 0 [chunk [1], tick 1, arrives (ack_for 0) 2, chunk [2], tick 3, no_data,
                  arrives (ack_for 0) 4, no_data]) =
     Pending [(1, [186, 173, 202, 254, 0, 0, 0, 1, 2])]"
    by (simp add: run_defs)
  moreover have "map_result sent_burst (main_burst 50 1 0 [chunk [1], silence, tick 1, no_data]) =
     Finished [[186, 173, 202, 254, 0, 0, 0, 0, 1]]"
    by (simp add: burst_defs silence_def)
  moreover have "map_result sent (main 50 1 0 [chunk [1], tick 1, silence, tick 3]) =
     Pending [[186, 173, 202, 254, 0, 0, 0, 0, 1], [186, 173, 202, 254, 0, 0, 0, 0, 1]]"
    by (simp add: run_defs silence_def floor_half)
  ultimately show ?thesis by blast
qed

text \<open>
  C10, amended. For a run in which the data source yields 3 chunks and then the end of the
  data and every ACK matches, the stop-and-wait client sends 3 datagrams, waits for 3
  ACKs, each carrying the number of the segment just sent, sends nothing twice and leaves
  its loop. On the same chunks and ACKs the windowed client puts the same 3 datagrams on
  the wire in the same order, logs 3 sends and 3 ACKs, and leaves its loop with nothing
  outstanding.
\<close>

theorem clean_run:
  "main_saw t0 [chunk c0, tick t1, arrives (ack_for 0) t2, chunk c1, tick t3,
                arrives (ack_for 1) t4, chunk c2, tick t5, arrives (ack_for 2) t6, no_data] =
     Finished
       \<lparr> start_saw = t0, seqno_saw = 3, body_saw = None, have_more_data_saw = False,
         state_saw = 0, tSend_saw = Some t5,
         sent_saw = [[186, 173, 202, 254, 0, 0, 0, 0] @ c0, [186, 173, 202, 254, 0, 0, 0, 1] @ c1,
                     [186, 173, 202, 254, 0, 0, 0, 2] @ c2],
         traced_saw = [(0, t1 - t0, 0, t2 - t0), (1, t3 - t0, 1, t4 - t0), (2, t5 - t0, 2, t6 - t0)],
         asked_saw = [(0, Some c0), (1, Some c1), (2, Some c2), (3, None)] \<rparr> \<and>
   map_result sent
     (main 1 1 0 [chunk c0, tick 1, arrives (ack_for 0) 2, chunk c1, tick 3, chunk c2, tick 4,
                  arrives (ack_for 1) 5, no_data, arrives (ack_for 2) 6]) =
     Finished [[186, 173, 202, 254, 0, 0, 0, 0] @ c0, [186, 173, 202, 254, 0, 0, 0, 1] @ c1,
               [186, 173, 202, 254, 0, 0, 0, 2] @ c2] \<and>
   map_result traced
     (main 1 1 0 [chunk c0, tick 1, arrives (ack_for 0) 2, chunk c1, tick 3, chunk c2, tick 4,
                  arrives (ack_for 1) 5, no_data, arrives (ack_for 2) 6]) =
     Finished [(0, 1, 0, 0), (0, 0, 0, 2), (1, 3, 0, 0), (2, 4, 0, 0), (0, 0, 1, 5), (0, 0, 2, 6)] \<and>
   map_result outstanding
     (main 1 1 0 [chunk c0, tick 1, arrives (ack_for 0) 2, chunk c1, tick 3, chunk c2, tick 4,
                  arrives (ack_for 1) 5, no_data, arrives (ack_for 2) 6]) = Finished []"
proof -
  have "main_saw t0 [chunk c0, tick t1, arrives (ack_for 0) t2, chunk c1, tick t3,
                arrives (ack_for 1) t4, chunk c2, tick t5, arrives (ack_for 2) t6, no_data] =
     Finished
       \<lparr> start_saw = t0, seqno_saw = 3, body_saw = None, have_more_data_saw = False,
         state_saw = 0, tSend_saw = Some t5,
         sent_saw = [[186, 173, 202, 254, 0, 0, 0, 0] @ c0, [186, 173, 202, 254, 0, 0, 0, 1] @ c1,
                     [186, 173, 202, 254, 0, 0, 0, 2] @ c2],
         traced_saw = [(0, t1 - t0, 0, t2 - t0), (1, t3 - t0, 1, t4 - t0), (2, t5 - t0, 2, t6 - t0)],
         asked_saw = [(0, Some c0), (1, Some c1), (2, Some c2), (3, None)] \<rparr>"
    by (simp add: saw_defs flip: numeral_2_eq_2 numeral_3_eq_3)
  moreover have "map_result sent
     (main 1 1 0 [chunk c0, tick 1, arrives (ack_for 0) 2, chunk c1, tick 3, chunk c2, tick 4,
                  arrives (ack_for 1) 5, no_data, arrives (ack_for 2) 6]) =
     Finished [[186, 173, 202, 254, 0, 0, 0, 0] @ c0, [186, 173, 202, 254, 0, 0, 0, 1] @ c1,
               [186, 173, 202, 254, 0, 0, 0, 2] @ c2]"
    by (simp add: run_defs)
  moreover have "map_result traced
     (main 1 1 0 [chunk c0, tick 1, arrives (ack_for 0) 2, chunk c1, tick 3, chunk c2, tick 4,
                  arrives (ack_for 1) 5, no_data, arrives (ack_for 2) 6]) =
     Finished [(0, 1, 0, 0), (0, 0, 0, 2), (1, 3, 0, 0), (2, 4, 0, 0), (0, 0, 1, 5), (0, 0, 2, 6)]"
    by (simp add: run_defs)
  moreover have "map_result outstanding
     (main 1 1 0 [chunk c0, tick 1, arrives (ack_for 0) 2, chunk c1, tick 3, chunk c2, tick 4,
                  arrives (ack_for 1) 5, no_data, arrives (ack_for 2) 6]) = Finished []"
    by (simp add: run_defs)
  ultimately show ?thesis by blast
qed

end
